theory Spec2Isabelle
  imports Main
begin

section \<open>Things, agents and the store\<close>

text \<open>
  The classes of the notebook: \<open>Thing\<close>, \<open>Agent(Thing)\<close>, \<open>Food(Thing)\<close>, \<open>Water(Thing)\<close> and
  \<open>BlindDog(Agent)\<close> (the second definition, the one the simulation uses).
\<close>

datatype cls = Thing_c | Agent_c | Food_c | Water_c | BlindDog_c

text \<open>\<open>issubclass c d\<close>: class \<open>c\<close> is \<open>d\<close> or inherits from it.\<close>

fun issubclass :: "cls \<Rightarrow> cls \<Rightarrow> bool" where
  "issubclass c Thing_c = True"
| "issubclass Agent_c Agent_c = True"
| "issubclass BlindDog_c Agent_c = True"
| "issubclass Food_c Food_c = True"
| "issubclass Water_c Water_c = True"
| "issubclass BlindDog_c BlindDog_c = True"
| "issubclass c d = False"

text \<open>
  An object is known by its class, which never changes, and its identity. No class defines
  \<open>__eq__\<close>, so \<open>==\<close>, \<open>in\<close> and \<open>list.remove\<close> compare identities: equality of \<open>thing\<close>
  values. The attributes of an object live in the store.
\<close>

datatype thing = Obj cls nat

fun class_of :: "thing \<Rightarrow> cls" where
  "class_of (Obj c n) = c"

definition isinstance :: "thing \<Rightarrow> cls \<Rightarrow> bool" where
  "isinstance t c = issubclass (class_of t) c"

text \<open>
  A location is whatever the caller passes to \<open>add_thing\<close>. The model keeps \<open>None\<close>, the
  integers (the locations of the park) and the sequences of integers; other numbers
  (floats) are not modelled, and nothing below is stated about them.
\<close>

datatype loc = NoneLoc | Num int | Vec "int list"

text \<open>
  The instance attributes of an object. \<open>None\<close> is an attribute that was never assigned:
  reading it raises \<open>AttributeError\<close>, unless the class supplies a default
  (\<open>BlindDog.location = 1\<close>). The percept of this program is a list of things and an
  action is a string.
\<close>

record attrs =
  location :: "loc option"
  alive :: "bool option"
  bump :: "bool option"
  holding :: "thing list option"
  performance :: "int option"
  program :: "(thing list \<Rightarrow> string) option"

datatype error = NotImplementedError | AttributeError | TypeError

text \<open>One printed line, with the values it formats.\<close>

datatype printed =
    NoValidProgram cls
  | CantAddTwice
  | NotInList
  | InDeleteThing
  | ToBeRemoved thing loc
  | FromList "(thing \<times> loc) list"
  | Decided thing string loc
  | Ate thing thing loc
  | Drank thing thing loc

text \<open>
  The world: the environment's two lists, the store of attributes, the next unused
  identity, what the person at the console answers when the fallback program asks
  (\<open>eval(input(...))\<close>), and the lines printed so far.
\<close>

record world =
  things :: "thing list"
  agents :: "thing list"
  heap :: "thing \<Rightarrow> attrs"
  nxt :: nat
  console :: "thing list \<Rightarrow> string"
  stdout :: "printed list"

text \<open>Sequencing of calls that may raise.\<close>

definition ebind :: "error + 'a \<Rightarrow> ('a \<Rightarrow> error + 'b) \<Rightarrow> error + 'b" where
  "ebind m f = (case m of Inl e \<Rightarrow> Inl e | Inr x \<Rightarrow> f x)"

definition print :: "printed \<Rightarrow> world \<Rightarrow> world" where
  "print l s = s\<lparr>stdout := stdout s @ [l]\<rparr>"

definition setattrs :: "thing \<Rightarrow> attrs \<Rightarrow> world \<Rightarrow> world" where
  "setattrs t a s = s\<lparr>heap := (heap s)(t := a)\<rparr>"

subsection \<open>Thing and Agent\<close>

text \<open>\<open>Thing()\<close>, \<open>Food()\<close>, \<open>Water()\<close>: no instance attribute.\<close>

definition Thing_init :: attrs where
  "Thing_init = \<lparr>location = None, alive = None, bump = None, holding = None,
                 performance = None, program = None\<rparr>"

text \<open>
  \<open>Agent.__init__(program)\<close>: the argument is \<open>Some f\<close> for a callable and \<open>None\<close> for
  anything else, which prints the warning and installs the interactive fallback.
  \<open>Agent_attrs f\<close> are the attributes of the new agent whose program is \<open>f\<close>.
\<close>

definition Agent_attrs :: "(thing list \<Rightarrow> string) \<Rightarrow> attrs" where
  "Agent_attrs f = \<lparr>location = None, alive = Some True, bump = Some False, holding = Some [],
                     performance = Some 0, program = Some f\<rparr>"

definition Agent_init :: "cls \<Rightarrow> (thing list \<Rightarrow> string) option \<Rightarrow> world \<Rightarrow> attrs \<times> world" where
  "Agent_init c p s =
     (case p of
        None \<Rightarrow> (Agent_attrs (console s), print (NoValidProgram c) s)
      | Some f \<Rightarrow> (Agent_attrs f, s))"

text \<open>Attribute reads.\<close>

definition getattr_location :: "world \<Rightarrow> thing \<Rightarrow> error + loc" where
  "getattr_location s t =
     (case location (heap s t) of
        Some l \<Rightarrow> Inr l
      | None \<Rightarrow> if isinstance t BlindDog_c then Inr (Num 1) else Inl AttributeError)"

definition getattr_alive :: "world \<Rightarrow> thing \<Rightarrow> error + bool" where
  "getattr_alive s t = (case alive (heap s t) of Some b \<Rightarrow> Inr b | None \<Rightarrow> Inl AttributeError)"

definition getattr_program :: "world \<Rightarrow> thing \<Rightarrow> error + (thing list \<Rightarrow> string)" where
  "getattr_program s t =
     (case program (heap s t) of Some f \<Rightarrow> Inr f | None \<Rightarrow> Inl AttributeError)"

text \<open>\<open>Thing.is_alive\<close>: \<open>hasattr(self, 'alive') and self.alive\<close>.\<close>

definition is_alive :: "world \<Rightarrow> thing \<Rightarrow> bool" where
  "is_alive s t = (case alive (heap s t) of Some b \<Rightarrow> b | None \<Rightarrow> False)"

text \<open>\<open>Agent.can_grab\<close>.\<close>

definition can_grab :: "thing \<Rightarrow> thing \<Rightarrow> bool" where
  "can_grab agent t = False"

section \<open>Environment\<close>

text \<open>
  The methods a subclass of \<open>Environment\<close> may override, as a record of functions; the
  methods that are not overridden (\<open>step\<close>, \<open>run\<close>, \<open>list_things_at\<close>, \<open>add_thing\<close>,
  \<open>delete_thing\<close>) take the record and call through it. \<open>percept\<close> and \<open>is_done\<close> read
  the world (``return the percept that the agent sees at this point''), and an agent
  program sees its percept only; \<open>execute_action\<close> and \<open>exogenous_change\<close> change the world.
\<close>

record env_class =
  percept :: "world \<Rightarrow> thing \<Rightarrow> error + thing list"
  execute_action :: "thing \<Rightarrow> string \<Rightarrow> world \<Rightarrow> error + world"
  default_location :: "thing \<Rightarrow> loc"
  exogenous_change :: "world \<Rightarrow> error + world"
  is_done :: "world \<Rightarrow> bool"

text \<open>\<open>Environment()\<close>: both lists empty, in the store as it is.\<close>

definition Environment_init :: "(thing \<Rightarrow> attrs) \<Rightarrow> nat \<Rightarrow> (thing list \<Rightarrow> string) \<Rightarrow> world" where
  "Environment_init h n ask =
     \<lparr>things = [], agents = [], heap = h, nxt = n, console = ask, stdout = []\<rparr>"

definition Environment_percept :: "world \<Rightarrow> thing \<Rightarrow> error + thing list" where
  "Environment_percept s agent = Inl NotImplementedError"

definition Environment_execute_action :: "thing \<Rightarrow> string \<Rightarrow> world \<Rightarrow> error + world" where
  "Environment_execute_action agent action s = Inl NotImplementedError"

definition Environment_default_location :: "thing \<Rightarrow> loc" where
  "Environment_default_location t = NoneLoc"

definition Environment_exogenous_change :: "world \<Rightarrow> error + world" where
  "Environment_exogenous_change s = Inr s"

definition Environment_is_done :: "world \<Rightarrow> bool" where
  "Environment_is_done s = (\<not> list_ex (is_alive s) (agents s))"

definition Environment :: env_class where
  "Environment = \<lparr>percept = Environment_percept,
                   execute_action = Environment_execute_action,
                   default_location = Environment_default_location,
                   exogenous_change = Environment_exogenous_change,
                   is_done = Environment_is_done\<rparr>"

subsection \<open>list_things_at\<close>

text \<open>
  The test of one thing in \<open>list_things_at\<close>. For an integer the locations are compared
  with \<open>==\<close>; otherwise \<open>zip(thing.location, location)\<close> is compared pairwise, which raises
  \<open>TypeError\<close> when one of the two is not a sequence.
\<close>

fun at_location :: "loc \<Rightarrow> loc \<Rightarrow> error + bool" where
  "at_location l (Num n) = Inr (l = Num n)"
| "at_location (Vec xs) (Vec ys) = Inr (list_all (\<lambda>(x, y). x = y) (zip xs ys))"
| "at_location l q = Inl TypeError"

fun things_at :: "world \<Rightarrow> loc \<Rightarrow> cls \<Rightarrow> thing list \<Rightarrow> error + thing list" where
  "things_at s q c [] = Inr []"
| "things_at s q c (t # ts) =
     ebind (getattr_location s t) (\<lambda>l.
     ebind (at_location l q) (\<lambda>b.
     ebind (things_at s q c ts) (\<lambda>rest.
       Inr (if b \<and> isinstance t c then t # rest else rest))))"

definition list_things_at :: "world \<Rightarrow> loc \<Rightarrow> cls \<Rightarrow> error + thing list" where
  "list_things_at s q c = things_at s q c (things s)"

definition some_things_at :: "world \<Rightarrow> loc \<Rightarrow> cls \<Rightarrow> error + bool" where
  "some_things_at s q c = ebind (list_things_at s q c) (\<lambda>xs. Inr (xs \<noteq> []))"

subsection \<open>add_thing and delete_thing\<close>

text \<open>
  What a caller can pass to \<open>add_thing\<close>: a Thing, a callable that is not a Thing (an agent
  program), or any other value.
\<close>

datatype arg = AThing thing | ACallable "thing list \<Rightarrow> string" | AOther

text \<open>\<open>thing = Agent(thing)\<close> for an argument that is not a Thing: a new object.\<close>

definition wrap_arg :: "arg \<Rightarrow> world \<Rightarrow> thing \<times> world" where
  "wrap_arg a s =
     (case a of
        AThing t \<Rightarrow> (t, s)
      | ACallable f \<Rightarrow>
          (let (at, s1) = Agent_init Agent_c (Some f) s
           in (Obj Agent_c (nxt s1), setattrs (Obj Agent_c (nxt s1)) at (s1\<lparr>nxt := Suc (nxt s1)\<rparr>)))
      | AOther \<Rightarrow>
          (let (at, s1) = Agent_init Agent_c None s
           in (Obj Agent_c (nxt s1), setattrs (Obj Agent_c (nxt s1)) at (s1\<lparr>nxt := Suc (nxt s1)\<rparr>))))"

definition add_thing :: "env_class \<Rightarrow> arg \<Rightarrow> loc \<Rightarrow> world \<Rightarrow> world" where
  "add_thing E a l s =
     (let (t, s1) = wrap_arg a s in
      if t \<in> set (things s1) then print CantAddTwice s1
      else
        let s2 = setattrs t ((heap s1 t)\<lparr>location :=
                     Some (if l \<noteq> NoneLoc then l else default_location E t)\<rparr>) s1;
            s3 = s2\<lparr>things := things s2 @ [t]\<rparr>
        in if isinstance t Agent_c
           then let s4 = setattrs t ((heap s3 t)\<lparr>performance := Some 0\<rparr>) s3
                in s4\<lparr>agents := agents s4 @ [t]\<rparr>
           else s3)"

text \<open>The list \<open>[(thing, thing.location) for thing in self.things]\<close> of the diagnostic.\<close>

fun with_locations :: "world \<Rightarrow> thing list \<Rightarrow> error + (thing \<times> loc) list" where
  "with_locations s [] = Inr []"
| "with_locations s (t # ts) =
     ebind (getattr_location s t) (\<lambda>l.
     ebind (with_locations s ts) (\<lambda>rest. Inr ((t, l) # rest)))"

definition delete_thing :: "thing \<Rightarrow> world \<Rightarrow> error + world" where
  "delete_thing t s =
     ebind (if t \<in> set (things s) then Inr (s\<lparr>things := remove1 t (things s)\<rparr>)
            else
              let s1 = print InDeleteThing (print NotInList s) in
              ebind (getattr_location s1 t) (\<lambda>l.
              let s2 = print (ToBeRemoved t l) s1 in
              ebind (with_locations s2 (things s2)) (\<lambda>ls. Inr (print (FromList ls) s2))))
       (\<lambda>s3. Inr (if t \<in> set (agents s3) then s3\<lparr>agents := remove1 t (agents s3)\<rparr> else s3))"

subsection \<open>step and run\<close>

text \<open>The action of one agent in the first loop of \<open>step\<close>.\<close>

definition decide :: "env_class \<Rightarrow> world \<Rightarrow> thing \<Rightarrow> error + string" where
  "decide E s agent =
     ebind (getattr_alive s agent) (\<lambda>b.
       if b then
         ebind (getattr_program s agent) (\<lambda>f.
         ebind (percept E s agent) (\<lambda>p. Inr (f p)))
       else Inr '''')"

fun decide_all :: "env_class \<Rightarrow> world \<Rightarrow> thing list \<Rightarrow> error + string list" where
  "decide_all E s [] = Inr []"
| "decide_all E s (a # as) =
     ebind (decide E s a) (\<lambda>x.
     ebind (decide_all E s as) (\<lambda>xs. Inr (x # xs)))"

text \<open>
  The second loop, \<open>for (agent, action) in zip(self.agents, actions)\<close>. The iterator over
  \<open>self.agents\<close> keeps an index into the list as it is when the next pair is taken, so the
  loop reads the agents list of the current state.
\<close>

fun act_all :: "env_class \<Rightarrow> nat \<Rightarrow> string list \<Rightarrow> world \<Rightarrow> error + world" where
  "act_all E i [] s = Inr s"
| "act_all E i (action # actions) s =
     (if i < length (agents s)
      then ebind (execute_action E (agents s ! i) action s) (act_all E (Suc i) actions)
      else Inr s)"

definition step :: "env_class \<Rightarrow> world \<Rightarrow> error + world" where
  "step E s =
     (if \<not> is_done E s then
        ebind (decide_all E s (agents s)) (\<lambda>actions.
        ebind (act_all E 0 actions s) (\<lambda>s1.
        exogenous_change E s1))
      else Inr s)"

fun run_loop :: "env_class \<Rightarrow> nat \<Rightarrow> world \<Rightarrow> error + world" where
  "run_loop E 0 s = Inr s"
| "run_loop E (Suc k) s =
     (if is_done E s then Inr s else ebind (step E s) (run_loop E k))"

text \<open>\<open>run(steps)\<close>: \<open>range(steps)\<close> is empty for a negative number.\<close>

definition run :: "env_class \<Rightarrow> int \<Rightarrow> world \<Rightarrow> error + world" where
  "run E steps s = run_loop E (nat steps) s"

section \<open>The park\<close>

subsection \<open>BlindDog\<close>

text \<open>
  Only \<open>BlindDog\<close> defines \<open>movedown\<close>, \<open>eat\<close> and \<open>drink\<close>; on an object of another class
  the method lookup raises \<open>AttributeError\<close>. \<open>self.location += 1\<close> reads the attribute
  (the class default 1 when the instance has none) and raises \<open>TypeError\<close> when it is
  \<open>None\<close> or a sequence.
\<close>

definition movedown :: "thing \<Rightarrow> world \<Rightarrow> error + world" where
  "movedown d s =
     (if isinstance d BlindDog_c then
        ebind (getattr_location s d) (\<lambda>l.
          case l of
            Num n \<Rightarrow> Inr (setattrs d ((heap s d)\<lparr>location := Some (Num (n + 1))\<rparr>) s)
          | _ \<Rightarrow> Inl TypeError)
      else Inl AttributeError)"

definition eat :: "thing \<Rightarrow> thing \<Rightarrow> error + bool" where
  "eat d t = (if isinstance d BlindDog_c then Inr (isinstance t Food_c) else Inl AttributeError)"

definition drink :: "thing \<Rightarrow> thing \<Rightarrow> error + bool" where
  "drink d t = (if isinstance d BlindDog_c then Inr (isinstance t Water_c) else Inl AttributeError)"

text \<open>The dog's program: the first Food or Water in the percept list decides.\<close>

fun program' :: "thing list \<Rightarrow> string" where
  "program' [] = ''move down''"
| "program' (p # ps) =
     (if isinstance p Food_c then ''eat''
      else if isinstance p Water_c then ''drink''
      else program' ps)"

subsection \<open>Park\<close>

definition Park_percept :: "world \<Rightarrow> thing \<Rightarrow> error + thing list" where
  "Park_percept s agent =
     ebind (getattr_location s agent) (\<lambda>l. list_things_at s l Thing_c)"

definition Park_execute_action :: "thing \<Rightarrow> string \<Rightarrow> world \<Rightarrow> error + world" where
  "Park_execute_action agent action s =
     (if action = ''move down'' then
        ebind (getattr_location s agent) (\<lambda>l.
          movedown agent (print (Decided agent action l) s))
      else if action = ''eat'' then
        ebind (getattr_location s agent) (\<lambda>l.
        ebind (list_things_at s l Food_c) (\<lambda>items.
          case items of
            [] \<Rightarrow> Inr s
          | item # _ \<Rightarrow>
              ebind (eat agent item) (\<lambda>ok.
                if ok then
                  ebind (getattr_location s agent) (\<lambda>l1.
                    delete_thing item (print (Ate agent item l1) s))
                else Inr s)))
      else if action = ''drink'' then
        ebind (getattr_location s agent) (\<lambda>l.
        ebind (list_things_at s l Water_c) (\<lambda>items.
          case items of
            [] \<Rightarrow> Inr s
          | item # _ \<Rightarrow>
              ebind (drink agent item) (\<lambda>ok.
                if ok then
                  ebind (getattr_location s agent) (\<lambda>l1.
                    delete_thing item (print (Drank agent item l1) s))
                else Inr s)))
      else Inr s)"

definition Park_is_done :: "world \<Rightarrow> bool" where
  "Park_is_done s =
     (let no_edibles = \<not> list_ex (\<lambda>t. isinstance t Food_c \<or> isinstance t Water_c) (things s);
          dead_agents = \<not> list_ex (is_alive s) (agents s)
      in dead_agents \<or> no_edibles)"

definition Park :: env_class where
  "Park = \<lparr>percept = Park_percept,
            execute_action = Park_execute_action,
            default_location = Environment_default_location,
            exogenous_change = Environment_exogenous_change,
            is_done = Park_is_done\<rparr>"

subsection \<open>The simulation of the notebook\<close>

text \<open>
  \<open>park = Park(); dog = BlindDog(program); dogfood = Food(); water = Water()\<close>, then the
  three calls of \<open>add_thing\<close> that place them at 1, 5 and 7. Nobody sits at the console.
\<close>

definition dog :: thing where
  "dog = Obj BlindDog_c 0"

definition dogfood :: thing where
  "dogfood = Obj Food_c 1"

definition water :: thing where
  "water = Obj Water_c 2"

definition nobody :: "thing list \<Rightarrow> string" where
  "nobody p = []"

definition fresh_store :: "thing \<Rightarrow> attrs" where
  "fresh_store = (\<lambda>t. Thing_init)(dog := Agent_attrs program')"

definition empty_park :: world where
  "empty_park = Environment_init fresh_store 3 nobody"

definition park :: world where
  "park = add_thing Park (AThing water) (Num 7)
            (add_thing Park (AThing dogfood) (Num 5)
              (add_thing Park (AThing dog) (Num 1) empty_park))"

section \<open>Specification-side definitions\<close>

text \<open>
  The tick as the specification words it. The action of one agent, from the state at the
  start of the tick: the program applied to the percept when the agent's alive flag is
  true, the empty action when it is false (reading a flag or a program that the agent
  does not have raises \<open>AttributeError\<close>).
\<close>

definition action_spec :: "env_class \<Rightarrow> world \<Rightarrow> thing \<Rightarrow> error + string" where
  "action_spec E s agent =
     (case alive (heap s agent) of
        None \<Rightarrow> Inl AttributeError
      | Some False \<Rightarrow> Inr ''''
      | Some True \<Rightarrow>
          (case program (heap s agent) of
             None \<Rightarrow> Inl AttributeError
           | Some f \<Rightarrow> (case percept E s agent of Inl e \<Rightarrow> Inl e | Inr p \<Rightarrow> Inr (f p))))"

text \<open>The values of a list of results, or the first error in it.\<close>

fun all_or_error :: "(error + 'a) list \<Rightarrow> error + 'a list" where
  "all_or_error [] = Inr []"
| "all_or_error (Inl e # rs) = Inl e"
| "all_or_error (Inr x # rs) = (case all_or_error rs of Inl e \<Rightarrow> Inl e | Inr xs \<Rightarrow> Inr (x # xs))"

text \<open>
  Applying \<open>execute_action\<close> to each pair of an agent and its action, in the order of the
  list of pairs.
\<close>

fun act_each :: "env_class \<Rightarrow> (thing \<times> string) list \<Rightarrow> world \<Rightarrow> error + world" where
  "act_each E [] s = Inr s"
| "act_each E ((agent, action) # ps) s =
     ebind (execute_action E agent action s) (act_each E ps)"

text \<open>
  The tick: nothing when \<open>is_done\<close>; otherwise one action for every agent of the agents
  list, all from the state at the start of the tick; then \<open>execute_action\<close> for each agent
  of that list paired with its own action, in the order of the list; then
  \<open>exogenous_change\<close> once.
\<close>

definition step_spec :: "env_class \<Rightarrow> world \<Rightarrow> error + world" where
  "step_spec E s =
     (if is_done E s then Inr s
      else
        case all_or_error (map (action_spec E s) (agents s)) of
          Inl e \<Rightarrow> Inl e
        | Inr actions \<Rightarrow>
            (case act_each E (zip (agents s) actions) s of
               Inl e \<Rightarrow> Inl e
             | Inr s1 \<Rightarrow> exogenous_change E s1))"

text \<open>
  The dog's program as the specification words it: Food anywhere in the list wins over
  Water anywhere in the list.
\<close>

definition program_spec :: "thing list \<Rightarrow> string" where
  "program_spec ps =
     (if list_ex (\<lambda>p. isinstance p Food_c) ps then ''eat''
      else if list_ex (\<lambda>p. isinstance p Water_c) ps then ''drink''
      else ''move down'')"

text \<open>Sequences of calls of \<open>add_thing\<close> and \<open>delete_thing\<close>; a call that raises ends the sequence.\<close>

datatype call = Add arg loc | Delete thing

fun do_call :: "env_class \<Rightarrow> call \<Rightarrow> world \<Rightarrow> error + world" where
  "do_call E (Add a l) s = Inr (add_thing E a l s)"
| "do_call E (Delete t) s = delete_thing t s"

fun calls :: "env_class \<Rightarrow> call list \<Rightarrow> world \<Rightarrow> error + world" where
  "calls E [] s = Inr s"
| "calls E (c # cs) s = ebind (do_call E c s) (calls E cs)"

text \<open>State predicates used by the theorems.\<close>

definition agents_are_agents :: "world \<Rightarrow> bool" where
  "agents_are_agents s = list_all (\<lambda>a. isinstance a Agent_c) (agents s)"

definition lists_ok :: "world \<Rightarrow> bool" where
  "lists_ok s = (distinct (agents s) \<and> set (agents s) \<subseteq> set (things s))"

definition located :: "world \<Rightarrow> bool" where
  "located s = list_all (\<lambda>t. getattr_location s t \<noteq> Inl AttributeError) (things s)"

text \<open>
  A subclass of \<open>Environment\<close> in which an agent that acts leaves the environment: its
  agents perceive nothing and its \<open>execute_action\<close> calls \<open>self.delete_thing(agent)\<close>. Two
  agents are added to it, each wrapped by \<open>add_thing\<close> around the program.
\<close>

definition Leaving :: env_class where
  "Leaving = \<lparr>percept = (\<lambda>s agent. Inr []),
               execute_action = (\<lambda>agent action s. delete_thing agent s),
               default_location = Environment_default_location,
               exogenous_change = Environment_exogenous_change,
               is_done = Environment_is_done\<rparr>"

definition crowd :: world where
  "crowd = add_thing Leaving (ACallable program') (Num 2)
             (add_thing Leaving (ACallable program') (Num 1)
               (Environment_init (\<lambda>t. Thing_init) 0 nobody))"

text \<open>The dog placed without a location: \<open>park.add_thing(dog)\<close>.\<close>

definition lost_park :: world where
  "lost_park = add_thing Park (AThing dogfood) (Num 5)
                 (add_thing Park (AThing dog) NoneLoc empty_park)"

text \<open>
  A park with three dogs: two at location 5, where the only Food is, and one at 1.
  \<open>park.add_thing(dog, 5); park.add_thing(dog2, 5); park.add_thing(dog3, 1);
  park.add_thing(dogfood, 5); park.add_thing(water, 7)\<close>.
\<close>

definition dog2 :: thing where
  "dog2 = Obj BlindDog_c 3"

definition dog3 :: thing where
  "dog3 = Obj BlindDog_c 4"

definition kennel :: world where
  "kennel = add_thing Park (AThing water) (Num 7)
              (add_thing Park (AThing dogfood) (Num 5)
                (add_thing Park (AThing dog3) (Num 1)
                  (add_thing Park (AThing dog2) (Num 5)
                    (add_thing Park (AThing dog) (Num 5)
                      (Environment_init
                         ((\<lambda>t. Thing_init)(dog := Agent_attrs program',
                            dog2 := Agent_attrs program', dog3 := Agent_attrs program'))
                         5 nobody)))))"

section \<open>Basic facts\<close>

lemma ebind_Inl [simp]: "ebind (Inl e) f = Inl e"
  by (simp add: ebind_def)

lemma ebind_Inr [simp]: "ebind (Inr x) f = f x"
  by (simp add: ebind_def)

lemma ebind_eq_Inr: "ebind m f = Inr y \<longleftrightarrow> (\<exists>x. m = Inr x \<and> f x = Inr y)"
  by (cases m) simp_all

lemma ebind_InrE:
  assumes "ebind m f = Inr y"
  obtains x where "m = Inr x" and "f x = Inr y"
  using assms by (cases m) simp_all

lemma isinstance_Thing [simp]: "isinstance t Thing_c"
  by (simp add: isinstance_def)

lemma Food_not_Agent: "isinstance t Food_c \<Longrightarrow> \<not> isinstance t Agent_c"
  by (cases t; cases "class_of t") (auto simp: isinstance_def)

lemma Water_not_Agent: "isinstance t Water_c \<Longrightarrow> \<not> isinstance t Agent_c"
  by (cases t; cases "class_of t") (auto simp: isinstance_def)

lemma Food_not_Water: "isinstance t Food_c \<Longrightarrow> \<not> isinstance t Water_c"
  by (cases t; cases "class_of t") (auto simp: isinstance_def)

subsection \<open>What add_thing and delete_thing do to the two lists\<close>

lemma lists_ok_init: "lists_ok (Environment_init h n ask)"
  by (simp add: lists_ok_def Environment_init_def)

lemma lists_ok_add_thing: "lists_ok s \<Longrightarrow> lists_ok (add_thing E a l s)"
  by (cases a)
     (auto simp: lists_ok_def add_thing_def wrap_arg_def Agent_init_def Agent_attrs_def setattrs_def print_def
                 Let_def split: prod.splits)

lemma delete_thing_parts:
  assumes "delete_thing t s = Inr s'"
  shows "things s' = (if t \<in> set (things s) then remove1 t (things s) else things s) \<and>
         agents s' = (if t \<in> set (agents s) then remove1 t (agents s) else agents s) \<and>
         heap s' = heap s"
proof -
  from assms obtain s3 where
    first: "(if t \<in> set (things s) then Inr (s\<lparr>things := remove1 t (things s)\<rparr>)
            else
              let s1 = print InDeleteThing (print NotInList s) in
              ebind (getattr_location s1 t) (\<lambda>l.
              let s2 = print (ToBeRemoved t l) s1 in
              ebind (with_locations s2 (things s2)) (\<lambda>ls. Inr (print (FromList ls) s2)))) = Inr s3"
    and last: "s' = (if t \<in> set (agents s3) then s3\<lparr>agents := remove1 t (agents s3)\<rparr> else s3)"
    unfolding delete_thing_def ebind_eq_Inr by blast
  from first have
    "things s3 = (if t \<in> set (things s) then remove1 t (things s) else things s) \<and>
     agents s3 = agents s \<and> heap s3 = heap s"
    by (auto simp: ebind_eq_Inr print_def Let_def split: if_splits)
  with last show ?thesis
    by simp
qed

lemma delete_thing_things:
  "delete_thing t s = Inr s' \<Longrightarrow>
   things s' = (if t \<in> set (things s) then remove1 t (things s) else things s)"
  by (simp add: delete_thing_parts)

lemma delete_thing_agents:
  "delete_thing t s = Inr s' \<Longrightarrow>
   agents s' = (if t \<in> set (agents s) then remove1 t (agents s) else agents s)"
  by (simp add: delete_thing_parts)

lemma delete_thing_heap: "delete_thing t s = Inr s' \<Longrightarrow> heap s' = heap s"
  by (simp add: delete_thing_parts)

lemma lists_ok_delete_thing:
  assumes "lists_ok s" and "delete_thing t s = Inr s'"
  shows "lists_ok s'"
proof -
  note th = delete_thing_things [OF assms(2)] and ag = delete_thing_agents [OF assms(2)]
  have dist: "distinct (agents s)" and sub: "set (agents s) \<subseteq> set (things s)"
    using assms(1) by (simp_all add: lists_ok_def)
  have "distinct (agents s')"
    using ag dist by (simp add: distinct_remove1)
  moreover have "set (agents s') \<subseteq> set (things s')"
  proof
    fix x assume x: "x \<in> set (agents s')"
    have "x \<in> set (agents s) \<and> (t \<in> set (things s) \<longrightarrow> x \<noteq> t)"
    proof (cases "t \<in> set (agents s)")
      case True
      with ag x dist show ?thesis
        by (simp add: set_remove1_eq)
    next
      case False
      with ag x show ?thesis
        by auto
    qed
    with sub th show "x \<in> set (things s')"
      by (auto simp: in_set_remove1)
  qed
  ultimately show ?thesis
    by (simp add: lists_ok_def)
qed

lemma lists_ok_calls: "lists_ok s \<Longrightarrow> calls E cs s = Inr s' \<Longrightarrow> lists_ok s'"
proof (induction cs arbitrary: s)
  case Nil
  then show ?case by simp
next
  case (Cons c cs)
  from Cons.prems(2) obtain s1 where c: "do_call E c s = Inr s1" and rest: "calls E cs s1 = Inr s'"
    by (auto simp: ebind_eq_Inr)
  have "lists_ok s1"
  proof (cases c)
    case (Add a l)
    with c Cons.prems(1) show ?thesis
      by (auto simp: lists_ok_add_thing)
  next
    case (Delete t)
    with c Cons.prems(1) show ?thesis
      by (auto dest: lists_ok_delete_thing)
  qed
  then show ?case
    using rest by (rule Cons.IH)
qed

lemma delete_thing_present:
  "t \<in> set (things s) \<Longrightarrow>
   delete_thing t s =
     Inr (if t \<in> set (agents s)
          then s\<lparr>things := remove1 t (things s), agents := remove1 t (agents s)\<rparr>
          else s\<lparr>things := remove1 t (things s)\<rparr>)"
  by (simp add: delete_thing_def)

subsection \<open>Reading locations\<close>

lemma getattr_location_heap: "heap s' = heap s \<Longrightarrow> getattr_location s' t = getattr_location s t"
  by (simp add: getattr_location_def)

lemma getattr_location_print [simp]: "getattr_location (print l s) t = getattr_location s t"
  by (simp add: getattr_location_def print_def)

lemma things_print [simp]: "things (print l s) = things s"
  by (simp add: print_def)

lemma agents_print [simp]: "agents (print l s) = agents s"
  by (simp add: print_def)

lemma heap_print [simp]: "heap (print l s) = heap s"
  by (simp add: print_def)

lemma getattr_location_setattrs:
  "getattr_location (setattrs a (r\<lparr>location := Some l\<rparr>) s) d =
     (if d = a then Inr l else getattr_location s d)"
  by (simp add: getattr_location_def setattrs_def)

lemma has_location_iff:
  "getattr_location s t \<noteq> Inl AttributeError \<longleftrightarrow>
     location (heap s t) \<noteq> None \<or> isinstance t BlindDog_c"
  by (simp add: getattr_location_def split: option.splits)

lemma at_location_Num [simp]: "at_location l (Num n) = Inr (l = Num n)"
  by (cases l) simp_all

lemma things_at_Num:
  "list_all (\<lambda>t. getattr_location s t \<noteq> Inl AttributeError) ts \<Longrightarrow>
   things_at s (Num n) c ts =
     Inr (filter (\<lambda>t. getattr_location s t = Inr (Num n) \<and> isinstance t c) ts)"
proof (induction ts)
  case Nil
  then show ?case by simp
next
  case (Cons t ts)
  from Cons.prems obtain l where l: "getattr_location s t = Inr l"
    by (cases "getattr_location s t") (auto simp: getattr_location_def split: option.splits if_splits)
  with Cons show ?case
    by simp
qed

lemma with_locations_total:
  "list_all (\<lambda>t. getattr_location s t \<noteq> Inl AttributeError) ts \<Longrightarrow>
   \<exists>ls. with_locations s ts = Inr ls"
proof (induction ts)
  case Nil
  then show ?case by simp
next
  case (Cons t ts)
  from Cons.prems obtain l where "getattr_location s t = Inr l"
    by (cases "getattr_location s t") (auto simp: getattr_location_def split: option.splits if_splits)
  with Cons show ?case
    by auto
qed

text \<open>
  Deleting a thing that is not in \<open>things\<close>, when it and the things of the environment have
  a location to print: four lines are printed and nothing else changes.
\<close>

lemma delete_thing_absent:
  assumes "t \<notin> set (things s)" and "t \<notin> set (agents s)" and "located s"
    and "getattr_location s t = Inr l"
  shows "\<exists>ls. delete_thing t s =
           Inr (print (FromList ls) (print (ToBeRemoved t l) (print InDeleteThing (print NotInList s))))"
proof -
  let ?s2 = "print (ToBeRemoved t l) (print InDeleteThing (print NotInList s))"
  from assms(3) have "list_all (\<lambda>x. getattr_location ?s2 x \<noteq> Inl AttributeError) (things ?s2)"
    by (simp add: located_def)
  from with_locations_total [OF this] obtain ls where "with_locations ?s2 (things ?s2) = Inr ls"
    by blast
  with assms(1,2,4) have "delete_thing t s = Inr (print (FromList ls) ?s2)"
    by (simp add: delete_thing_def Let_def)
  then show ?thesis ..
qed

subsection \<open>The ways Park.execute_action returns\<close>

lemma movedown_Inr:
  "movedown a s = Inr s' \<longleftrightarrow>
     (\<exists>n. isinstance a BlindDog_c \<and> getattr_location s a = Inr (Num n) \<and>
          s' = setattrs a ((heap s a)\<lparr>location := Some (Num (n + 1))\<rparr>) s)"
proof (cases "isinstance a BlindDog_c")
  case False
  then show ?thesis
    by (simp add: movedown_def)
next
  case True
  show ?thesis
  proof (cases "getattr_location s a")
    case (Inl e)
    with True show ?thesis
      by (simp add: movedown_def)
  next
    case (Inr l)
    with True show ?thesis
      by (cases l) (auto simp: movedown_def)
  qed
qed

text \<open>
  \<open>Park.execute_action\<close> returns in one of three ways: the agent moved down, nothing
  changed, or one Food or Water was deleted after a line was printed.
\<close>

lemma eat_branch_cases:
  assumes "(case items of
              [] \<Rightarrow> Inr s
            | item # _ \<Rightarrow>
                ebind (eat a item) (\<lambda>ok.
                  if ok then
                    ebind (getattr_location s a) (\<lambda>l1.
                      delete_thing item (print (Ate a item l1) s))
                  else Inr s)) = Inr s'"
  obtains "s' = s"
  | item l1 where "isinstance item Food_c" and "delete_thing item (print (Ate a item l1) s) = Inr s'"
proof (cases items)
  case Nil
  with assms that(1) show ?thesis by simp
next
  case (Cons item rest)
  with assms have "ebind (eat a item) (\<lambda>ok.
                  if ok then
                    ebind (getattr_location s a) (\<lambda>l1.
                      delete_thing item (print (Ate a item l1) s))
                  else Inr s) = Inr s'"
    by simp
  then obtain ok where ok: "eat a item = Inr ok" and
    rest: "(if ok then ebind (getattr_location s a) (\<lambda>l1. delete_thing item (print (Ate a item l1) s))
      else Inr s) = Inr s'"
    by (rule ebind_InrE)
  show ?thesis
  proof (cases ok)
    case False
    with rest that(1) show ?thesis by simp
  next
    case True
    with ok have food: "isinstance item Food_c"
      by (simp add: eat_def split: if_splits)
    from True rest obtain l1 where "delete_thing item (print (Ate a item l1) s) = Inr s'"
      by (auto elim: ebind_InrE)
    with food that(2) show ?thesis by blast
  qed
qed

lemma drink_branch_cases:
  assumes "(case items of
              [] \<Rightarrow> Inr s
            | item # _ \<Rightarrow>
                ebind (drink a item) (\<lambda>ok.
                  if ok then
                    ebind (getattr_location s a) (\<lambda>l1.
                      delete_thing item (print (Drank a item l1) s))
                  else Inr s)) = Inr s'"
  obtains "s' = s"
  | item l1 where "isinstance item Water_c" and "delete_thing item (print (Drank a item l1) s) = Inr s'"
proof (cases items)
  case Nil
  with assms that(1) show ?thesis by simp
next
  case (Cons item rest)
  with assms have "ebind (drink a item) (\<lambda>ok.
                  if ok then
                    ebind (getattr_location s a) (\<lambda>l1.
                      delete_thing item (print (Drank a item l1) s))
                  else Inr s) = Inr s'"
    by simp
  then obtain ok where ok: "drink a item = Inr ok" and
    rest: "(if ok then ebind (getattr_location s a) (\<lambda>l1. delete_thing item (print (Drank a item l1) s))
      else Inr s) = Inr s'"
    by (rule ebind_InrE)
  show ?thesis
  proof (cases ok)
    case False
    with rest that(1) show ?thesis by simp
  next
    case True
    with ok have water: "isinstance item Water_c"
      by (simp add: drink_def split: if_splits)
    from True rest obtain l1 where "delete_thing item (print (Drank a item l1) s) = Inr s'"
      by (auto elim: ebind_InrE)
    with water that(2) show ?thesis by blast
  qed
qed

lemma Park_execute_action_cases:
  assumes "Park_execute_action a act s = Inr s'"
  obtains
    (moved) l n where "act = ''move down''" and "isinstance a BlindDog_c"
      and "getattr_location s a = Inr (Num n)"
      and "s' = setattrs a ((heap s a)\<lparr>location := Some (Num (n + 1))\<rparr>) (print (Decided a act l) s)"
  | (same) "act \<noteq> ''move down''" and "s' = s"
  | (consumed) item line where "act \<noteq> ''move down''" and "\<not> isinstance item Agent_c"
      and "delete_thing item (print line s) = Inr s'"
proof (cases "act = ''move down''")
  case True
  with assms have
    "ebind (getattr_location s a) (\<lambda>l. movedown a (print (Decided a act l) s)) = Inr s'"
    by (simp add: Park_execute_action_def)
  then obtain l where "movedown a (print (Decided a act l) s) = Inr s'"
    by (rule ebind_InrE)
  then obtain n where "isinstance a BlindDog_c" and "getattr_location s a = Inr (Num n)"
    and "s' = setattrs a ((heap s a)\<lparr>location := Some (Num (n + 1))\<rparr>) (print (Decided a act l) s)"
    unfolding movedown_Inr by auto
  with True moved show ?thesis by blast
next
  case False
  note not_move = this
  show ?thesis
  proof (cases "act = ''eat''")
    case True
    with assms have "ebind (getattr_location s a) (\<lambda>l.
        ebind (list_things_at s l Food_c) (\<lambda>items.
          case items of
            [] \<Rightarrow> Inr s
          | item # _ \<Rightarrow>
              ebind (eat a item) (\<lambda>ok.
                if ok then
                  ebind (getattr_location s a) (\<lambda>l1.
                    delete_thing item (print (Ate a item l1) s))
                else Inr s))) = Inr s'"
      by (simp add: Park_execute_action_def)
    then show ?thesis
    proof (elim ebind_InrE eat_branch_cases)
      assume "s' = s"
      with not_move same show ?thesis by blast
    next
      fix item l1
      assume "isinstance item Food_c" and "delete_thing item (print (Ate a item l1) s) = Inr s'"
      with not_move consumed [of item "Ate a item l1"] show ?thesis
        by (blast dest: Food_not_Agent)
    qed
  next
    case False
    note not_eat = this
    show ?thesis
    proof (cases "act = ''drink''")
      case True
      with assms have "ebind (getattr_location s a) (\<lambda>l.
        ebind (list_things_at s l Water_c) (\<lambda>items.
          case items of
            [] \<Rightarrow> Inr s
          | item # _ \<Rightarrow>
              ebind (drink a item) (\<lambda>ok.
                if ok then
                  ebind (getattr_location s a) (\<lambda>l1.
                    delete_thing item (print (Drank a item l1) s))
                else Inr s))) = Inr s'"
        by (simp add: Park_execute_action_def)
      then show ?thesis
      proof (elim ebind_InrE drink_branch_cases)
        assume "s' = s"
        with not_move same show ?thesis by blast
      next
        fix item l1
        assume "isinstance item Water_c" and "delete_thing item (print (Drank a item l1) s) = Inr s'"
        with not_move consumed [of item "Drank a item l1"] show ?thesis
          by (blast dest: Water_not_Agent)
      qed
    next
      case False
      with not_move not_eat assms have "s' = s"
        by (simp add: Park_execute_action_def)
      with not_move same show ?thesis by blast
    qed
  qed
qed

lemma Park_execute_action_heap:
  assumes "Park_execute_action a act s = Inr s'" and "act \<noteq> ''move down''"
  shows "heap s' = heap s"
  using assms(1)
proof (cases rule: Park_execute_action_cases)
  case (moved l n)
  with assms(2) show ?thesis by simp
next
  case same
  then show ?thesis by simp
next
  case (consumed item line)
  from delete_thing_heap [OF consumed(3)] show ?thesis by simp
qed

lemma Park_execute_action_agents:
  assumes "Park_execute_action a act s = Inr s'" and "agents_are_agents s"
  shows "agents s' = agents s"
  using assms(1)
proof (cases rule: Park_execute_action_cases)
  case (moved l n)
  then show ?thesis by (simp add: setattrs_def)
next
  case same
  then show ?thesis by simp
next
  case (consumed item line)
  from assms(2) consumed(2) have "item \<notin> set (agents (print line s))"
    by (auto simp: agents_are_agents_def list_all_iff)
  with delete_thing_agents [OF consumed(3)] show ?thesis by simp
qed

subsection \<open>Every thing of the environment has a location\<close>

lemma located_setattrs:
  "located s \<Longrightarrow> located (setattrs a ((heap s a)\<lparr>location := Some l\<rparr>) s)"
  unfolding located_def list_all_iff getattr_location_setattrs
  by (simp add: setattrs_def)

lemma located_print [simp]: "located (print l s) = located s"
  by (simp add: located_def)

lemma located_delete_thing:
  assumes "located s" and "delete_thing t s = Inr s'"
  shows "located s'"
proof -
  from delete_thing_things [OF assms(2)] set_remove1_subset [of t "things s"]
  have "set (things s') \<subseteq> set (things s)"
    by (simp split: if_splits)
  moreover from delete_thing_heap [OF assms(2)]
  have "getattr_location s' x = getattr_location s x" for x
    by (rule getattr_location_heap)
  ultimately show ?thesis
    using assms(1) by (auto simp: located_def list_all_iff)
qed

lemma located_Park_execute_action:
  assumes "located s" and "Park_execute_action a act s = Inr s'"
  shows "located s'"
  using assms(2)
proof (cases rule: Park_execute_action_cases)
  case (moved l n)
  have "located (print (Decided a act l) s)"
    using assms(1) by simp
  from located_setattrs [OF this, of a "Num (n + 1)"] moved(4) show ?thesis
    by simp
next
  case same
  with assms(1) show ?thesis by simp
next
  case (consumed item line)
  have "located (print line s)"
    using assms(1) by simp
  then show ?thesis
    using consumed(3) by (rule located_delete_thing)
qed

lemma located_add_thing:
  assumes "located s" and "(\<exists>t. a = AThing t) \<or> Obj Agent_c (nxt s) \<notin> set (things s)"
  shows "located (add_thing E a l s)"
proof (cases a)
  case (AThing t)
  show ?thesis
  proof (cases "t \<in> set (things s)")
    case True
    with assms(1) AThing show ?thesis
      by (simp add: add_thing_def wrap_arg_def)
  next
    case False
    with assms(1) AThing show ?thesis
      unfolding located_def list_all_iff has_location_iff
      by (auto simp: add_thing_def wrap_arg_def Let_def setattrs_def)
  qed
next
  case (ACallable f)
  with assms show ?thesis
    unfolding located_def list_all_iff has_location_iff
    by (auto simp: add_thing_def wrap_arg_def Agent_init_def Agent_attrs_def Let_def setattrs_def)
next
  case AOther
  with assms show ?thesis
    unfolding located_def list_all_iff has_location_iff
    by (auto simp: add_thing_def wrap_arg_def Agent_init_def Agent_attrs_def Let_def setattrs_def print_def)
qed

lemma located_act_all:
  "located s \<Longrightarrow> act_all Park i actions s = Inr s' \<Longrightarrow> located s'"
proof (induction actions arbitrary: i s)
  case Nil
  then show ?case by simp
next
  case (Cons action actions)
  show ?case
  proof (cases "i < length (agents s)")
    case False
    with Cons.prems show ?thesis by simp
  next
    case True
    with Cons.prems(2) have
      "ebind (Park_execute_action (agents s ! i) action s) (act_all Park (Suc i) actions) = Inr s'"
      by (simp add: Park_def)
    then obtain s1 where one: "Park_execute_action (agents s ! i) action s = Inr s1"
      and rest: "act_all Park (Suc i) actions s1 = Inr s'"
      by (rule ebind_InrE)
    from located_Park_execute_action [OF Cons.prems(1) one] rest show ?thesis
      by (rule Cons.IH)
  qed
qed

lemma located_step:
  assumes "located s" and "step Park s = Inr s'"
  shows "located s'"
proof (cases "is_done Park s")
  case True
  with assms show ?thesis
    by (simp add: step_def)
next
  case False
  with assms(2) have
    "ebind (decide_all Park s (agents s)) (\<lambda>actions.
       ebind (act_all Park 0 actions s) (\<lambda>s1. exogenous_change Park s1)) = Inr s'"
    by (simp add: step_def)
  then obtain actions s1 where "act_all Park 0 actions s = Inr s1"
    and "exogenous_change Park s1 = Inr s'"
    by (elim ebind_InrE)
  then have "act_all Park 0 actions s = Inr s'"
    by (simp add: Park_def Environment_exogenous_change_def)
  with assms(1) show ?thesis
    by (rule located_act_all)
qed

lemma located_run_loop:
  "located s \<Longrightarrow> run_loop Park k s = Inr s' \<Longrightarrow> located s'"
proof (induction k arbitrary: s)
  case 0
  then show ?case by simp
next
  case (Suc k)
  show ?case
  proof (cases "is_done Park s")
    case True
    with Suc.prems show ?thesis by simp
  next
    case False
    with Suc.prems(2) have "ebind (step Park s) (run_loop Park k) = Inr s'"
      by simp
    then obtain s1 where one: "step Park s = Inr s1" and rest: "run_loop Park k s1 = Inr s'"
      by (rule ebind_InrE)
    from located_step [OF Suc.prems(1) one] rest show ?thesis
      by (rule Suc.IH)
  qed
qed

subsection \<open>Locations never decrease\<close>

lemma movedown_location:
  assumes "movedown a t = Inr s'" and "getattr_location t d = Inr (Num k)"
  shows "\<exists>m. getattr_location s' d = Inr (Num m) \<and> k \<le> m"
proof -
  from assms(1) obtain n where n: "getattr_location t a = Inr (Num n)"
    and s': "s' = setattrs a ((heap t a)\<lparr>location := Some (Num (n + 1))\<rparr>) t"
    unfolding movedown_Inr by blast
  show ?thesis
  proof (cases "d = a")
    case True
    with n assms(2) show ?thesis
      unfolding s' getattr_location_setattrs by simp
  next
    case False
    with assms(2) show ?thesis
      unfolding s' getattr_location_setattrs by simp
  qed
qed

lemma Park_execute_action_location:
  assumes "Park_execute_action a act s = Inr s'" and "getattr_location s d = Inr (Num k)"
  shows "\<exists>m. getattr_location s' d = Inr (Num m) \<and> k \<le> m"
proof (cases "act = ''move down''")
  case True
  with assms(1) have
    "ebind (getattr_location s a) (\<lambda>l. movedown a (print (Decided a act l) s)) = Inr s'"
    by (simp add: Park_execute_action_def)
  then obtain l where mv: "movedown a (print (Decided a act l) s) = Inr s'"
    by (rule ebind_InrE)
  from assms(2) have "getattr_location (print (Decided a act l) s) d = Inr (Num k)"
    by simp
  with mv show ?thesis
    by (rule movedown_location)
next
  case False
  from Park_execute_action_heap [OF assms(1) False]
  have "getattr_location s' d = getattr_location s d"
    by (rule getattr_location_heap)
  with assms(2) show ?thesis
    by simp
qed

lemma act_all_location:
  "act_all Park i acts s = Inr s' \<Longrightarrow> getattr_location s d = Inr (Num k) \<Longrightarrow>
   \<exists>m. getattr_location s' d = Inr (Num m) \<and> k \<le> m"
proof (induction acts arbitrary: i s k)
  case Nil
  then show ?case by simp
next
  case (Cons act acts)
  show ?case
  proof (cases "i < length (agents s)")
    case True
    with Cons.prems(1) obtain s1 where
      one: "Park_execute_action (agents s ! i) act s = Inr s1" and
      rest: "act_all Park (Suc i) acts s1 = Inr s'"
      by (auto simp: ebind_eq_Inr Park_def)
    from Park_execute_action_location [OF one Cons.prems(2)] obtain m1 where
      m1: "getattr_location s1 d = Inr (Num m1)" and "k \<le> m1"
      by blast
    from Cons.IH [OF rest m1] \<open>k \<le> m1\<close> show ?thesis
      by force
  next
    case False
    with Cons.prems show ?thesis
      by auto
  qed
qed

lemma step_location:
  assumes "step Park s = Inr s'" and "getattr_location s d = Inr (Num k)"
  shows "\<exists>m. getattr_location s' d = Inr (Num m) \<and> k \<le> m"
proof (cases "is_done Park s")
  case True
  with assms show ?thesis
    by (simp add: step_def)
next
  case False
  with assms(1) obtain acts s1 where
    "act_all Park 0 acts s = Inr s1" and "exogenous_change Park s1 = Inr s'"
    by (auto simp: step_def ebind_eq_Inr)
  then have "act_all Park 0 acts s = Inr s'"
    by (simp add: Park_def Environment_exogenous_change_def)
  from act_all_location [OF this assms(2)] show ?thesis .
qed

lemma run_loop_location:
  "run_loop Park j s = Inr s' \<Longrightarrow> getattr_location s d = Inr (Num k) \<Longrightarrow>
   \<exists>m. getattr_location s' d = Inr (Num m) \<and> k \<le> m"
proof (induction j arbitrary: s k)
  case 0
  then show ?case by simp
next
  case (Suc j)
  show ?case
  proof (cases "is_done Park s")
    case True
    with Suc.prems show ?thesis by simp
  next
    case False
    with Suc.prems(1) obtain s1 where one: "step Park s = Inr s1" and rest: "run_loop Park j s1 = Inr s'"
      by (auto simp: ebind_eq_Inr)
    from step_location [OF one Suc.prems(2)] obtain m1 where
      m1: "getattr_location s1 d = Inr (Num m1)" and "k \<le> m1"
      by blast
    from Suc.IH [OF rest m1] \<open>k \<le> m1\<close> show ?thesis
      by force
  qed
qed

lemma execute_move_down:
  assumes "isinstance d BlindDog_c" and "getattr_location s d = Inr (Num n)"
  shows "\<exists>s'. Park_execute_action d ''move down'' s = Inr s' \<and>
              getattr_location s' d = Inr (Num (n + 1))"
  using assms
  by (simp add: Park_execute_action_def movedown_def getattr_location_setattrs)

lemma execute_eat_total:
  assumes "isinstance d BlindDog_c" and "getattr_location s d = Inr (Num n)" and "located s"
  shows "\<exists>s'. Park_execute_action d ''eat'' s = Inr s'"
proof -
  let ?items = "filter (\<lambda>t. getattr_location s t = Inr (Num n) \<and> isinstance t Food_c) (things s)"
  have items: "list_things_at s (Num n) Food_c = Inr ?items"
    using assms(3) by (simp add: list_things_at_def located_def things_at_Num)
  show ?thesis
  proof (cases ?items)
    case Nil
    with items assms show ?thesis
      by (simp add: Park_execute_action_def)
  next
    case (Cons item rest)
    then have "item \<in> set ?items"
      by simp
    then have "item \<in> set (things s)" and "isinstance item Food_c"
      by simp_all
    then have "\<exists>s'. delete_thing item (print (Ate d item (Num n)) s) = Inr s'"
      by (simp add: delete_thing_present print_def)
    with items Cons assms \<open>isinstance item Food_c\<close> show ?thesis
      by (simp add: Park_execute_action_def eat_def)
  qed
qed

lemma execute_drink_total:
  assumes "isinstance d BlindDog_c" and "getattr_location s d = Inr (Num n)" and "located s"
  shows "\<exists>s'. Park_execute_action d ''drink'' s = Inr s'"
proof -
  let ?items = "filter (\<lambda>t. getattr_location s t = Inr (Num n) \<and> isinstance t Water_c) (things s)"
  have items: "list_things_at s (Num n) Water_c = Inr ?items"
    using assms(3) by (simp add: list_things_at_def located_def things_at_Num)
  show ?thesis
  proof (cases ?items)
    case Nil
    with items assms show ?thesis
      by (simp add: Park_execute_action_def)
  next
    case (Cons item rest)
    then have "item \<in> set ?items"
      by simp
    then have "item \<in> set (things s)" and "isinstance item Water_c"
      by simp_all
    then have "\<exists>s'. delete_thing item (print (Drank d item (Num n)) s) = Inr s'"
      by (simp add: delete_thing_present print_def)
    with items Cons assms \<open>isinstance item Water_c\<close> show ?thesis
      by (simp add: Park_execute_action_def drink_def)
  qed
qed

lemma execute_other_total:
  assumes "isinstance d BlindDog_c" and "getattr_location s d = Inr (Num n)" and "located s"
    and "act \<noteq> ''move down''"
  shows "\<exists>s'. Park_execute_action d act s = Inr s' \<and> getattr_location s' d = Inr (Num n)"
proof -
  have "\<exists>s'. Park_execute_action d act s = Inr s'"
  proof (cases "act = ''eat''")
    case True
    with execute_eat_total [OF assms(1-3)] show ?thesis by simp
  next
    case False
    show ?thesis
    proof (cases "act = ''drink''")
      case True
      with execute_drink_total [OF assms(1-3)] show ?thesis by simp
    next
      case False
      with \<open>act \<noteq> ''eat''\<close> assms(4) show ?thesis
        by (simp add: Park_execute_action_def)
    qed
  qed
  then obtain s' where s': "Park_execute_action d act s = Inr s'"
    by blast
  from Park_execute_action_heap [OF s' assms(4)]
  have "getattr_location s' d = getattr_location s d"
    by (rule getattr_location_heap)
  with assms(2) s' show ?thesis
    by simp
qed

lemma add_thing_other_location:
  "t \<noteq> d \<Longrightarrow> getattr_location (add_thing E (AThing t) l s) d = getattr_location s d"
  by (simp add: add_thing_def wrap_arg_def getattr_location_def setattrs_def Let_def print_def)

subsection \<open>The first loop of step\<close>

lemma decide_action_spec: "decide E s agent = action_spec E s agent"
  by (simp add: decide_def action_spec_def getattr_alive_def getattr_program_def ebind_def
           split: option.splits bool.splits sum.splits)

lemma decide_all_spec: "decide_all E s as = all_or_error (map (action_spec E s) as)"
proof (induction as)
  case Nil
  then show ?case by simp
next
  case (Cons a as)
  then show ?case
    by (cases "action_spec E s a") (simp_all add: decide_action_spec ebind_def)
qed

lemma all_or_error_map:
  "(\<And>a. a \<in> set as \<Longrightarrow> f a = Inr (g a)) \<Longrightarrow> all_or_error (map f as) = Inr (map g as)"
  by (induction as) simp_all

lemma zip_with_map: "zip as (map g as) = map (\<lambda>a. (a, g a)) as"
  by (induction as) simp_all

subsection \<open>The second loop of step\<close>

lemma act_all_act_each:
  assumes pres: "\<And>agent action t t'. I t \<Longrightarrow> execute_action E agent action t = Inr t' \<Longrightarrow>
                   I t' \<and> agents t' = agents t"
  shows "I s \<Longrightarrow> act_all E i actions s = act_each E (zip (drop i (agents s)) actions) s"
proof (induction actions arbitrary: i s)
  case Nil
  then show ?case by simp
next
  case (Cons action actions)
  show ?case
  proof (cases "i < length (agents s)")
    case False
    then show ?thesis by simp
  next
    case True
    then have split: "drop i (agents s) = agents s ! i # drop (Suc i) (agents s)"
      by (simp add: Cons_nth_drop_Suc)
    show ?thesis
    proof (cases "execute_action E (agents s ! i) action s")
      case (Inl e)
      with True split show ?thesis by simp
    next
      case (Inr t')
      from pres [OF Cons.prems Inr] have "I t'" and same: "agents t' = agents s"
        by simp_all
      from Cons.IH [OF \<open>I t'\<close>, of "Suc i"] same Inr True split show ?thesis
        by simp
    qed
  qed
qed

lemma Park_keeps_agents:
  assumes "agents_are_agents t" and "execute_action Park agent action t = Inr t'"
  shows "agents_are_agents t' \<and> agents t' = agents t"
proof -
  from assms(2) have "Park_execute_action agent action t = Inr t'"
    by (simp add: Park_def)
  from Park_execute_action_agents [OF this assms(1)] assms(1) show ?thesis
    by (simp add: agents_are_agents_def)
qed

text \<open>
  The agents list holds agents only, in every state built by \<open>add_thing\<close> and
  \<open>delete_thing\<close>; on such a state the park's tick is the tick of the specification.
\<close>

lemma agents_are_agents_init: "agents_are_agents (Environment_init h n ask)"
  by (simp add: agents_are_agents_def Environment_init_def)

lemma agents_are_agents_add_thing:
  "agents_are_agents s \<Longrightarrow> agents_are_agents (add_thing E a l s)"
  by (cases a)
     (auto simp: agents_are_agents_def add_thing_def wrap_arg_def Agent_init_def setattrs_def
                 print_def Let_def split: prod.splits)

lemma agents_are_agents_delete_thing:
  assumes "agents_are_agents s" and "delete_thing t s = Inr s'"
  shows "agents_are_agents s'"
proof -
  from delete_thing_agents [OF assms(2)] set_remove1_subset [of t "agents s"]
  have "set (agents s') \<subseteq> set (agents s)"
    by (simp split: if_splits)
  with assms(1) show ?thesis
    by (auto simp: agents_are_agents_def list_all_iff)
qed

lemma Park_step_spec:
  assumes "agents_are_agents s"
  shows "step Park s = step_spec Park s"
proof -
  have "act_all Park 0 actions s = act_each Park (zip (agents s) actions) s" for actions
    using act_all_act_each [of agents_are_agents Park s 0 actions] assms Park_keeps_agents
    by simp
  then show ?thesis
    by (simp add: step_def step_spec_def decide_all_spec ebind_def)
qed

section \<open>The claims\<close>

subsection \<open>C1: one tick\<close>

text \<open>
  C1, as the specification states it, has \<open>step\<close> apply \<open>execute_action\<close> to every agent of
  the agents list, in order. The second loop iterates over \<open>self.agents\<close> itself while
  \<open>execute_action\<close> runs: in an environment whose \<open>execute_action\<close> removes the acting agent,
  the list shrinks under the iterator and the second agent's action is never executed.
\<close>

theorem step_skips_agent_counterexample:
  "agents crowd = [Obj Agent_c 0, Obj Agent_c 1] \<and> \<not> is_done Leaving crowd \<and>
   map_sum id agents (step Leaving crowd) = Inr [Obj Agent_c 1] \<and>
   map_sum id agents (step_spec Leaving crowd) = Inr []"
  by code_simp

text \<open>
  C1 (amended): in an environment whose \<open>execute_action\<close> leaves the agents list as it is
  (on the states of an invariant \<open>I\<close> that it preserves; the park is one, see the witness),
  \<open>step\<close> is the tick of the specification. It does nothing when \<open>is_done\<close> holds.
  Otherwise it computes one action for every agent of the agents list from the state at
  the start of the tick (the program on the percept for an agent whose alive flag is true,
  the empty action for one whose flag is false); and when these actions are \<open>act a\<close> for
  each agent \<open>a\<close>, it applies \<open>execute_action\<close> to the pairs \<open>(a, act a)\<close>, in the order of the
  agents list, and then calls \<open>exogenous_change\<close> once.
\<close>

theorem step_decides_then_acts:
  assumes "I s"
    and "\<And>agent action t t'. I t \<Longrightarrow> execute_action E agent action t = Inr t' \<Longrightarrow>
           I t' \<and> agents t' = agents t"
  shows "step E s = step_spec E s \<and>
         (is_done E s \<longrightarrow> step E s = Inr s) \<and>
         (\<forall>act. \<not> is_done E s \<and> (\<forall>a\<in>set (agents s). action_spec E s a = Inr (act a)) \<longrightarrow>
            step E s =
              ebind (act_each E (map (\<lambda>a. (a, act a)) (agents s)) s) (exogenous_change E))"
proof -
  have second: "act_all E 0 actions s = act_each E (zip (agents s) actions) s" for actions
    using act_all_act_each [of I E s 0 actions] assms by simp
  have eq: "step E s = step_spec E s"
    by (simp add: step_def step_spec_def decide_all_spec ebind_def second)
  have idle: "is_done E s \<longrightarrow> step E s = Inr s"
    by (simp add: step_def)
  have pairs: "\<forall>act. \<not> is_done E s \<and> (\<forall>a\<in>set (agents s). action_spec E s a = Inr (act a)) \<longrightarrow>
            step E s =
              ebind (act_each E (map (\<lambda>a. (a, act a)) (agents s)) s) (exogenous_change E)"
  proof (intro allI impI, elim conjE)
    fix act
    assume nd: "\<not> is_done E s"
      and acts: "\<forall>a\<in>set (agents s). action_spec E s a = Inr (act a)"
    from acts have "all_or_error (map (action_spec E s) (agents s)) = Inr (map act (agents s))"
      by (intro all_or_error_map) simp
    with nd show "step E s =
        ebind (act_each E (map (\<lambda>a. (a, act a)) (agents s)) s) (exogenous_change E)"
      unfolding eq by (simp add: step_spec_def zip_with_map ebind_def)
  qed
  from eq idle pairs show ?thesis
    by (intro conjI)
qed

theorem step_decides_then_acts_witness:
  "agents_are_agents kennel \<and> \<not> is_done Park kennel \<and> agents kennel = [dog, dog2, dog3] \<and>
   map (action_spec Park kennel) [dog, dog2, dog3] = [Inr ''eat'', Inr ''eat'', Inr ''move down''] \<and>
   step Park kennel =
     ebind (act_each Park [(dog, ''eat''), (dog2, ''eat''), (dog3, ''move down'')] kennel)
       (exogenous_change Park) \<and>
   map_sum id (\<lambda>s. (things s, stdout s)) (step Park kennel) =
     Inr ([dog, dog2, dog3, water], [Ate dog dogfood (Num 5), Decided dog3 ''move down'' (Num 1)])"
proof -
  let ?act = "\<lambda>a. if a = dog3 then ''move down'' else ''eat''"
  have a: "agents_are_agents kennel" and b: "\<not> is_done Park kennel"
    and c: "agents kennel = [dog, dog2, dog3]"
    and d: "map (action_spec Park kennel) [dog, dog2, dog3] =
              [Inr ''eat'', Inr ''eat'', Inr ''move down'']"
    and r: "map_sum id (\<lambda>s. (things s, stdout s)) (step Park kennel) =
     Inr ([dog, dog2, dog3, water], [Ate dog dogfood (Num 5), Decided dog3 ''move down'' (Num 1)])"
    by code_simp+
  have ne: "dog \<noteq> dog3" "dog2 \<noteq> dog3"
    by (simp_all add: dog_def dog2_def dog3_def)
  have acts: "\<forall>a\<in>set (agents kennel). action_spec Park kennel a = Inr (?act a)"
    using d ne unfolding c by simp
  have t: "step Park kennel = step_spec Park kennel \<and>
         (is_done Park kennel \<longrightarrow> step Park kennel = Inr kennel) \<and>
         (\<forall>act. \<not> is_done Park kennel \<and>
                (\<forall>a\<in>set (agents kennel). action_spec Park kennel a = Inr (act a)) \<longrightarrow>
            step Park kennel =
              ebind (act_each Park (map (\<lambda>a. (a, act a)) (agents kennel)) kennel)
                (exogenous_change Park))"
  proof (rule step_decides_then_acts [where I = agents_are_agents])
    show "agents_are_agents kennel"
      by (rule a)
  next
    fix agent action t t'
    assume "agents_are_agents t" and "execute_action Park agent action t = Inr t'"
    then show "agents_are_agents t' \<and> agents t' = agents t"
      by (rule Park_keeps_agents)
  qed
  from t [THEN conjunct2, THEN conjunct2, rule_format, of ?act] b acts
  have "step Park kennel =
          ebind (act_each Park (map (\<lambda>a. (a, ?act a)) (agents kennel)) kennel)
            (exogenous_change Park)"
    by blast
  with ne have e: "step Park kennel =
     ebind (act_each Park [(dog, ''eat''), (dog2, ''eat''), (dog3, ''move down'')] kennel)
       (exogenous_change Park)"
    unfolding c by simp
  show ?thesis
    by (intro conjI a b c d e r)
qed

subsection \<open>C2: the dog's program\<close>

text \<open>
  C2, as the specification states it, gives Food priority over Water wherever the two stand
  in the percept list. The program returns at the first Food or Water it meets: with the
  Water first the action is \<open>drink\<close>, although the list holds a Food.
\<close>

theorem program_food_after_water_counterexample:
  "list_ex (\<lambda>p. isinstance p Food_c) [water, dogfood] \<and>
   program' [water, dogfood] = ''drink'' \<and>
   program_spec [water, dogfood] = ''eat''"
  by (simp add: program_spec_def water_def dogfood_def isinstance_def)

text \<open>
  C2 (amended): the action is decided by the first element of the percept list that is a
  Food or a Water: \<open>eat\<close> when it is a Food, \<open>drink\<close> when it is a Water, and \<open>move down\<close>
  when the list holds neither.
\<close>

theorem program_first_edible:
  "program' ps =
     (case find (\<lambda>p. isinstance p Food_c \<or> isinstance p Water_c) ps of
        None \<Rightarrow> ''move down''
      | Some p \<Rightarrow> if isinstance p Food_c then ''eat'' else ''drink'')"
  by (induction ps) (auto simp: Food_not_Water)

theorem program_first_edible_witness:
  "program' [dog, water, dogfood] = ''drink'' \<and> program' [dog, dogfood, water] = ''eat''"
  using program_first_edible [of "[dog, water, dogfood]"]
        program_first_edible [of "[dog, dogfood, water]"]
  by (simp add: dog_def water_def dogfood_def isinstance_def)

subsection \<open>C3: the first run of the notebook\<close>

text \<open>
  C3: from the fresh park with the dog at 1, the Food at 5 and the Water at 7, \<open>run(5)\<close>
  returns, having printed four \<open>move down\<close> decisions at the locations 1, 2, 3, 4 and then
  one meal at location 5; the dog is then at 5, the Food has left \<open>things\<close> and the Water
  is still there. The action decided in each of the five ticks is \<open>move down\<close> at 1, 2, 3
  and 4 and \<open>eat\<close> at 5.
\<close>

theorem run_five_steps:
  "map_sum id (\<lambda>s. (stdout s, getattr_location s dog, things s, agents s)) (run Park 5 park) =
     Inr ([Decided dog ''move down'' (Num 1),
           Decided dog ''move down'' (Num 2),
           Decided dog ''move down'' (Num 3),
           Decided dog ''move down'' (Num 4),
           Ate dog dogfood (Num 5)],
          Inr (Num 5), [dog, water], [dog]) \<and>
   map (\<lambda>k. ebind (run Park k park)
               (\<lambda>s. ebind (decide_all Park s (agents s))
                 (\<lambda>actions. Inr (getattr_location s dog, actions)))) [0, 1, 2, 3, 4] =
     [Inr (Inr (Num 1), [''move down'']),
      Inr (Inr (Num 2), [''move down'']),
      Inr (Inr (Num 3), [''move down'']),
      Inr (Inr (Num 4), [''move down'']),
      Inr (Inr (Num 5), [''eat''])] \<and>
   dogfood \<in> set (things park)"
  by code_simp

subsection \<open>C4: agents are things\<close>

text \<open>
  C4: after construction and after any sequence of calls of \<open>add_thing\<close> and
  \<open>delete_thing\<close>, with any arguments, every element of \<open>agents\<close> is an element of
  \<open>things\<close>.
\<close>

theorem agents_subset_things:
  assumes "calls E cs (Environment_init h n ask) = Inr s"
  shows "set (agents s) \<subseteq> set (things s)"
  using lists_ok_calls [OF lists_ok_init assms] by (simp add: lists_ok_def)

theorem agents_subset_things_witness:
  "map_sum id (\<lambda>s. (things s, agents s))
     (calls Park [Add (AThing dog) (Num 1), Add (ACallable program') NoneLoc,
                  Add (AThing dogfood) (Num 5), Add (AThing dog) (Num 4), Delete dog,
                  Add AOther (Num 3), Delete dog]
        (Environment_init fresh_store 3 nobody)) =
     Inr ([Obj Agent_c 3, dogfood, Obj Agent_c 4], [Obj Agent_c 3, Obj Agent_c 4]) \<and>
   set [Obj Agent_c 3, Obj Agent_c 4] \<subseteq> set [Obj Agent_c 3, dogfood, Obj Agent_c 4]"
proof -
  have run: "map_sum id (\<lambda>s. (things s, agents s))
     (calls Park [Add (AThing dog) (Num 1), Add (ACallable program') NoneLoc,
                  Add (AThing dogfood) (Num 5), Add (AThing dog) (Num 4), Delete dog,
                  Add AOther (Num 3), Delete dog]
        (Environment_init fresh_store 3 nobody)) =
     Inr ([Obj Agent_c 3, dogfood, Obj Agent_c 4], [Obj Agent_c 3, Obj Agent_c 4])"
    by code_simp
  then obtain s where s: "calls Park [Add (AThing dog) (Num 1), Add (ACallable program') NoneLoc,
                  Add (AThing dogfood) (Num 5), Add (AThing dog) (Num 4), Delete dog,
                  Add AOther (Num 3), Delete dog]
        (Environment_init fresh_store 3 nobody) = Inr s"
    and ts: "things s = [Obj Agent_c 3, dogfood, Obj Agent_c 4]"
    and ag: "agents s = [Obj Agent_c 3, Obj Agent_c 4]"
    by (cases "calls Park [Add (AThing dog) (Num 1), Add (ACallable program') NoneLoc,
                  Add (AThing dogfood) (Num 5), Add (AThing dog) (Num 4), Delete dog,
                  Add AOther (Num 3), Delete dog]
        (Environment_init fresh_store 3 nobody)") auto
  from agents_subset_things [OF s] ts ag run show ?thesis
    by simp
qed

subsection \<open>C5: adding a new agent\<close>

text \<open>
  C5: adding an Agent that is not in \<open>things\<close> at a location other than \<open>None\<close> puts it in
  \<open>things\<close> and in \<open>agents\<close>, sets its performance to 0 and its location to the one given.
\<close>

theorem add_thing_new_agent:
  assumes "isinstance a Agent_c" and "a \<notin> set (things s)" and "l \<noteq> NoneLoc"
  shows "a \<in> set (things (add_thing E (AThing a) l s)) \<and>
         a \<in> set (agents (add_thing E (AThing a) l s)) \<and>
         performance (heap (add_thing E (AThing a) l s) a) = Some 0 \<and>
         location (heap (add_thing E (AThing a) l s) a) = Some l"
  using assms by (simp add: add_thing_def wrap_arg_def setattrs_def Let_def)

theorem add_thing_new_agent_witness:
  "isinstance dog Agent_c \<and> dog \<notin> set (things empty_park) \<and> Num 1 \<noteq> NoneLoc \<and>
   dog \<in> set (things (add_thing Park (AThing dog) (Num 1) empty_park)) \<and>
   dog \<in> set (agents (add_thing Park (AThing dog) (Num 1) empty_park)) \<and>
   performance (heap (add_thing Park (AThing dog) (Num 1) empty_park) dog) = Some 0 \<and>
   location (heap (add_thing Park (AThing dog) (Num 1) empty_park) dog) = Some (Num 1)"
proof -
  have a: "isinstance dog Agent_c"
    by (simp add: dog_def isinstance_def)
  have b: "dog \<notin> set (things empty_park)"
    by (simp add: empty_park_def Environment_init_def)
  have c: "Num 1 \<noteq> NoneLoc"
    by simp
  show ?thesis
    using a b c add_thing_new_agent [OF a b c, of Park] by simp
qed

subsection \<open>C6: deleting a thing that is not there\<close>

text \<open>
  C6: deleting a Thing that is not in \<open>things\<close> should only print a diagnostic. The
  diagnostic formats \<open>thing.location\<close>; a Thing that was never added to an environment has
  no such attribute, and the call raises \<open>AttributeError\<close> from inside the handler.
\<close>

theorem delete_fresh_thing_raises:
  "dogfood \<notin> set (things empty_park) \<and> delete_thing dogfood empty_park = Inl AttributeError"
  by (simp add: delete_thing_def empty_park_def Environment_init_def print_def
        getattr_location_def fresh_store_def dog_def dogfood_def Thing_init_def isinstance_def)

subsection \<open>C7: adding a thing twice\<close>

text \<open>
  C7: adding a Thing that is already in \<open>things\<close>, at any location, only prints a line:
  \<open>things\<close>, \<open>agents\<close> and every attribute of every object stay as they were.
\<close>

theorem add_thing_twice:
  assumes "t \<in> set (things s)"
  shows "add_thing E (AThing t) l s = print CantAddTwice s \<and>
         things (add_thing E (AThing t) l s) = things s \<and>
         agents (add_thing E (AThing t) l s) = agents s \<and>
         heap (add_thing E (AThing t) l s) = heap s"
  using assms by (simp add: add_thing_def wrap_arg_def print_def)

theorem add_thing_twice_witness:
  "dog \<in> set (things park) \<and>
   things (add_thing Park (AThing dog) (Num 9) park) = things park \<and>
   agents (add_thing Park (AThing dog) (Num 9) park) = agents park \<and>
   heap (add_thing Park (AThing dog) (Num 9) park) = heap park"
proof -
  have a: "dog \<in> set (things park)"
    by code_simp
  show ?thesis
    using a add_thing_twice [OF a, of Park "Num 9"] by (simp add: print_def)
qed

subsection \<open>C8: the dog's location\<close>

text \<open>
  C8, as stated, has the dog's location an integer in every state the park can reach. A
  dog added without a location (\<open>park.add_thing(dog)\<close>) has the location \<open>None\<close>, and
  \<open>move down\<close> then raises \<open>TypeError\<close> instead of adding 1.
\<close>

theorem dog_without_location_counterexample:
  "dog \<in> set (agents lost_park) \<and> getattr_location lost_park dog = Inr NoneLoc \<and>
   map_sum id things (Park_execute_action dog ''move down'' lost_park) = Inl TypeError"
  by code_simp

text \<open>
  C8 (amended): for a BlindDog whose location is an integer, in a park whose things all
  have a location, \<open>move down\<close> returns with the location increased by exactly 1, every
  other action returns with it unchanged, and after a tick or a run that returns the
  location is again an integer, and not a smaller one; adding another thing to the park
  leaves it as it is. So from a state where the dog's
  location is an integer, it is an integer in every state the simulation reaches, and it
  never decreases from one step to the next.
\<close>

theorem dog_location_never_decreases:
  assumes "isinstance d BlindDog_c" and "getattr_location s d = Inr (Num n)" and "located s"
  shows "(\<exists>s'. Park_execute_action d ''move down'' s = Inr s' \<and>
               getattr_location s' d = Inr (Num (n + 1))) \<and>
         (\<forall>action. action \<noteq> ''move down'' \<longrightarrow>
            (\<exists>s'. Park_execute_action d action s = Inr s' \<and>
                  getattr_location s' d = Inr (Num n))) \<and>
         (\<forall>s'. step Park s = Inr s' \<longrightarrow>
            located s' \<and> (\<exists>m. getattr_location s' d = Inr (Num m) \<and> n \<le> m)) \<and>
         (\<forall>steps s'. run Park steps s = Inr s' \<longrightarrow>
            located s' \<and> (\<exists>m. getattr_location s' d = Inr (Num m) \<and> n \<le> m)) \<and>
         (\<forall>t l. t \<noteq> d \<longrightarrow>
            located (add_thing Park (AThing t) l s) \<and>
            getattr_location (add_thing Park (AThing t) l s) d = Inr (Num n))"
proof (intro conjI allI impI)
  show "\<exists>s'. Park_execute_action d ''move down'' s = Inr s' \<and>
             getattr_location s' d = Inr (Num (n + 1))"
    by (rule execute_move_down [OF assms(1,2)])
next
  fix action :: string
  assume "action \<noteq> ''move down''"
  then show "\<exists>s'. Park_execute_action d action s = Inr s' \<and>
                  getattr_location s' d = Inr (Num n)"
    by (rule execute_other_total [OF assms])
next
  fix s'
  assume "step Park s = Inr s'"
  then show "\<exists>m. getattr_location s' d = Inr (Num m) \<and> n \<le> m"
    using assms(2) by (rule step_location)
next
  fix s'
  assume "step Park s = Inr s'"
  with assms(3) show "located s'"
    by (rule located_step)
next
  fix steps s'
  assume "run Park steps s = Inr s'"
  then have "run_loop Park (nat steps) s = Inr s'"
    by (simp add: run_def)
  then show "\<exists>m. getattr_location s' d = Inr (Num m) \<and> n \<le> m"
    using assms(2) by (rule run_loop_location)
next
  fix steps s'
  assume "run Park steps s = Inr s'"
  then have "run_loop Park (nat steps) s = Inr s'"
    by (simp add: run_def)
  with assms(3) show "located s'"
    by (rule located_run_loop)
next
  fix t l
  show "located (add_thing Park (AThing t) l s)"
    using assms(3) by (simp add: located_add_thing)
next
  fix t l
  assume "t \<noteq> d"
  with assms(2) show "getattr_location (add_thing Park (AThing t) l s) d = Inr (Num n)"
    by (simp add: add_thing_other_location)
qed

theorem dog_location_never_decreases_witness:
  "isinstance dog BlindDog_c \<and> getattr_location park dog = Inr (Num 1) \<and> located park \<and>
   (\<exists>s'. Park_execute_action dog ''move down'' park = Inr s' \<and>
         getattr_location s' dog = Inr (Num 2)) \<and>
   (\<exists>s'. Park_execute_action dog ''eat'' park = Inr s' \<and>
         getattr_location s' dog = Inr (Num 1)) \<and>
   (\<exists>s' m. run Park 5 park = Inr s' \<and> getattr_location s' dog = Inr (Num m) \<and> 1 \<le> m) \<and>
   isinstance dog2 BlindDog_c \<and> getattr_location kennel dog2 = Inr (Num 5) \<and> located kennel \<and>
   (\<exists>s'. Park_execute_action dog2 ''move down'' kennel = Inr s' \<and>
         getattr_location s' dog2 = Inr (Num 6))"
proof -
  have a: "isinstance dog BlindDog_c" and b: "getattr_location park dog = Inr (Num 1)"
    and c: "located park"
    and a2: "isinstance dog2 BlindDog_c" and b2: "getattr_location kennel dog2 = Inr (Num 5)"
    and c2: "located kennel"
    by code_simp+
  have r: "map_sum id things (run Park 5 park) = Inr [dog, water]"
    by code_simp
  then obtain s' where s': "run Park 5 park = Inr s'"
    by (cases "run Park 5 park") auto
  have e: "''eat'' \<noteq> ''move down''"
    by simp
  note t = dog_location_never_decreases [OF a b c]
  from t [THEN conjunct1]
  have t1: "\<exists>s'. Park_execute_action dog ''move down'' park = Inr s' \<and>
                 getattr_location s' dog = Inr (Num 2)"
    by simp
  note t2 = t [THEN conjunct2, THEN conjunct1, rule_format, OF e]
  from t [THEN conjunct2, THEN conjunct2, THEN conjunct2, THEN conjunct1, rule_format, OF s',
          THEN conjunct2] s'
  have t3: "\<exists>s' m. run Park 5 park = Inr s' \<and>
                 getattr_location s' dog = Inr (Num m) \<and> 1 \<le> m"
    by (intro exI [of _ s']) simp
  from dog_location_never_decreases [OF a2 b2 c2, THEN conjunct1]
  have t4: "\<exists>s'. Park_execute_action dog2 ''move down'' kennel = Inr s' \<and>
                 getattr_location s' dog2 = Inr (Num 6)"
    by simp
  show ?thesis
    by (intro conjI a b c t1 t2 t3 a2 b2 c2 t4)
qed

subsection \<open>C9: what the dog perceives\<close>

text \<open>
  C9, as stated, is about every agent in the things list of a park. An agent added
  without a location (\<open>park.add_thing(dog)\<close>) has the location \<open>None\<close>, which is not a
  number at all, so \<open>list_things_at\<close> zips it with each thing's location and raises \<open>TypeError\<close>.
\<close>

theorem percept_unlocated_counterexample:
  "dog \<in> set (things lost_park) \<and> Park_percept lost_park dog = Inl TypeError"
  by code_simp

text \<open>
  C9 (amended): for an agent that is in the things list and whose location is an integer,
  in a park where every thing of the list has been given a location, \<open>Park.percept\<close>
  returns the things of the list whose location equals the agent's, of every class, in
  the order of the list; the agent itself is among them, so the list is not empty.
\<close>

theorem percept_at_number:
  assumes "a \<in> set (things s)" and "located s" and "getattr_location s a = Inr (Num n)"
  shows "Park_percept s a =
           Inr (filter (\<lambda>t. getattr_location s t = getattr_location s a) (things s)) \<and>
         a \<in> set (filter (\<lambda>t. getattr_location s t = getattr_location s a) (things s))"
  using assms
  by (simp add: Park_percept_def list_things_at_def located_def things_at_Num)

theorem percept_at_number_witness:
  "dog \<in> set (things park) \<and> located park \<and> getattr_location park dog = Inr (Num 1) \<and>
   Park_percept park dog = Inr [dog] \<and>
   Park_percept (add_thing Park (AThing (Obj Food_c 7)) (Num 1) park) dog =
     Inr [dog, Obj Food_c 7]"
proof -
  let ?p = "add_thing Park (AThing (Obj Food_c 7)) (Num 1) park"
  have a: "dog \<in> set (things park)" and b: "located park"
    and c: "getattr_location park dog = Inr (Num 1)"
    by code_simp+
  have a': "dog \<in> set (things ?p)" and b': "located ?p"
    and c': "getattr_location ?p dog = Inr (Num 1)"
    by code_simp+
  have d: "filter (\<lambda>t. getattr_location park t = getattr_location park dog) (things park) = [dog]"
    by code_simp
  have d': "filter (\<lambda>t. getattr_location ?p t = getattr_location ?p dog) (things ?p) =
              [dog, Obj Food_c 7]"
    by code_simp
  from percept_at_number [OF a b c] percept_at_number [OF a' b' c'] a b c d d'
  show ?thesis
    by simp
qed

subsection \<open>C10: actions the park does not know\<close>

text \<open>
  C10: for an action other than \<open>move down\<close>, \<open>eat\<close> and \<open>drink\<close>, \<open>Park.execute_action\<close>
  returns with the world unchanged; this covers the empty action that \<open>step\<close> chooses for
  an agent whose \<open>alive\<close> flag is false.
\<close>

theorem execute_other_action:
  assumes "action \<noteq> ''move down''" and "action \<noteq> ''eat''" and "action \<noteq> ''drink''"
  shows "Park_execute_action agent action s = Inr s \<and>
         (alive (heap s agent) = Some False \<longrightarrow>
            ebind (decide Park s agent) (\<lambda>a. Park_execute_action agent a s) = Inr s)"
  using assms by (simp add: Park_execute_action_def decide_def getattr_alive_def)

theorem execute_other_action_witness:
  "Park_execute_action dog '''' park = Inr park \<and>
   Park_execute_action dog ''bark'' park = Inr park"
  using execute_other_action [of "''''" dog park] execute_other_action [of "''bark''" dog park]
  by simp

end
